theory Spec2Isabelle
  imports Main
begin

section \<open>The filesystem and the log, as the file operations see them\<close>

text \<open>
  A path names one regular file. The filesystem is a map from paths to the text of the
  file; a path outside its domain does not exist. Directories, links, permissions and
  encodings are not modelled: every file that exists can be read as text and written.
  A Python \<open>str\<close> is a \<open>string\<close>, one \<open>char\<close> per character.
\<close>

type_synonym path = string

datatype exn =
    FileNotFoundError path
  | SameFileError path path
  | ValueError string
  | PyException string
  | SystemExit string
  | KeyboardInterrupt

text \<open>
  \<open>isinstance(e, Exception)\<close>: what a handler \<open>except Exception\<close> catches.
  \<open>SystemExit\<close> and \<open>KeyboardInterrupt\<close> derive from \<open>BaseException\<close> only.
\<close>

fun is_exception :: "exn \<Rightarrow> bool" where
  "is_exception (SystemExit m) = False"
| "is_exception KeyboardInterrupt = False"
| "is_exception e = True"

datatype log_entry = INFO string | ERROR string

record world =
  files :: "path \<Rightarrow> string option"
  log :: "log_entry list"

definition BACKUP_EXTENSION :: string where
  "BACKUP_EXTENSION = ''.bak.cu''"

text \<open>
  \<open>repr(s)\<close> of a \<open>str\<close>: double quotes when the string holds a single quote and no
  double quote, single quotes otherwise; the quote in use and the backslash are
  escaped, tab, newline and carriage return are written \<open>\t\<close>, \<open>\n\<close>, \<open>\r\<close>, and every
  other character that is not printable is written \<open>\xNN\<close>.
\<close>

definition printable :: "char \<Rightarrow> bool" where
  "printable c =
     (let n = (of_char c :: nat)
      in (32 \<le> n \<and> n \<le> 126) \<or> (161 \<le> n \<and> n \<noteq> 173))"

definition hex_digit :: "nat \<Rightarrow> char" where
  "hex_digit n = ''0123456789abcdef'' ! (n mod 16)"

definition repr_char :: "char \<Rightarrow> char \<Rightarrow> string" where
  "repr_char q c =
     (if c = q \<or> c = CHR 0x5C then [CHR 0x5C, c]
      else if c = CHR 0x09 then [CHR 0x5C, CHR ''t'']
      else if c = CHR 0x0A then [CHR 0x5C, CHR ''n'']
      else if c = CHR 0x0D then [CHR 0x5C, CHR ''r'']
      else if printable c then [c]
      else [CHR 0x5C, CHR ''x'', hex_digit (of_char c div 16), hex_digit (of_char c)])"

definition quoted :: "string \<Rightarrow> string" where
  "quoted p =
     (let q = (if CHR 0x27 \<in> set p \<and> CHR 0x22 \<notin> set p then CHR 0x22 else CHR 0x27)
      in [q] @ concat (map (repr_char q) p) @ [q])"

text \<open>\<open>str(e)\<close>, as the f-strings of the log messages format an exception.\<close>

fun str_exn :: "exn \<Rightarrow> string" where
  "str_exn (FileNotFoundError p) = ''[Errno 2] No such file or directory: '' @ quoted p"
| "str_exn (SameFileError p q) = quoted p @ '' and '' @ quoted q @ '' are the same file''"
| "str_exn (ValueError m) = m"
| "str_exn (PyException m) = m"
| "str_exn (SystemExit m) = m"
| "str_exn KeyboardInterrupt = []"

definition logging_info :: "string \<Rightarrow> world \<Rightarrow> world" where
  "logging_info m w = w\<lparr>log := log w @ [INFO m]\<rparr>"

definition logging_error :: "string \<Rightarrow> world \<Rightarrow> world" where
  "logging_error m w = w\<lparr>log := log w @ [ERROR m]\<rparr>"

text \<open>
  \<open>shutil.copy2(src, dst)\<close>: raises when source and destination are the same existing
  file, when the source does not exist, and when the destination cannot be opened (the
  empty path); otherwise the destination holds the source's content afterwards.
\<close>

definition copy2 :: "path \<Rightarrow> path \<Rightarrow> world \<Rightarrow> exn + world" where
  "copy2 src dst w =
     (case files w src of
        None \<Rightarrow> Inl (FileNotFoundError src)
      | Some c \<Rightarrow>
          if src = dst then Inl (SameFileError src dst)
          else if dst = [] then Inl (FileNotFoundError dst)
          else Inr (w\<lparr>files := (files w)(dst \<mapsto> c)\<rparr>))"

text \<open>\<open>s.endswith(suf)\<close> and the slice \<open>s[:-n]\<close> for \<open>n > 0\<close>.\<close>

definition endswith :: "string \<Rightarrow> string \<Rightarrow> bool" where
  "endswith s suf = (length suf \<le> length s \<and> drop (length s - length suf) s = suf)"

definition slice_to_minus :: "string \<Rightarrow> nat \<Rightarrow> string" where
  "slice_to_minus s n = take (length s - n) s"

section \<open>FileOperations\<close>

text \<open>
  \<open>create_backup\<close>. The timestamp \<open>ts\<close> is what
  \<open>datetime.now().strftime("%Y%m%d_%H%M%S")\<close> yields when the function runs.
  The result is the pair of the returned value (\<open>None\<close> for Python's \<open>None\<close>) and the
  world afterwards.
\<close>

definition create_backup :: "string \<Rightarrow> path \<Rightarrow> world \<Rightarrow> path option \<times> world" where
  "create_backup ts file_path w =
     (let backup_path = file_path @ ''_'' @ ts @ BACKUP_EXTENSION in
      case copy2 file_path backup_path w of
        Inr w' \<Rightarrow> (Some backup_path, logging_info (''Backup created: '' @ backup_path) w')
      | Inl e \<Rightarrow>
          (None, logging_error (''Backup failed for '' @ file_path @ '': '' @ str_exn e) w))"

definition restore_backup :: "path \<Rightarrow> world \<Rightarrow> bool \<times> world" where
  "restore_backup backup_path w =
     (if \<not> endswith backup_path BACKUP_EXTENSION
      then (False, logging_error (''Invalid backup file: '' @ backup_path) w)
      else
        let original_path = slice_to_minus backup_path (length BACKUP_EXTENSION) in
        case copy2 backup_path original_path w of
          Inr w' \<Rightarrow> (True, logging_info (''Restored '' @ original_path @ '' from backup'') w')
        | Inl e \<Rightarrow>
            (False, logging_error (''Restore failed for '' @ backup_path @ '': '' @ str_exn e) w))"

text \<open>
  \<open>str.splitlines()\<close>: a line ends at \<open>\n\<close>, \<open>\r\<close>, \<open>\r\n\<close>, \<open>\v\<close>, \<open>\f\<close>,
  \<open>\x1c\<close>, \<open>\x1d\<close>, \<open>\x1e\<close> or \<open>\x85\<close>; no empty last line is produced. The flag
  says that the previous character was \<open>\r\<close>, so that a following \<open>\n\<close> belongs to the
  same line break. (The separators beyond one byte, U+2028 and U+2029, are outside
  \<open>char\<close>.)
\<close>

definition is_linebreak :: "char \<Rightarrow> bool" where
  "is_linebreak c = (c \<in> set [CHR 0x0A, CHR 0x0D, CHR 0x0B, CHR 0x0C,
                               CHR 0x1C, CHR 0x1D, CHR 0x1E, CHR 0x85])"

fun splitlines_aux :: "bool \<Rightarrow> string \<Rightarrow> string \<Rightarrow> string list" where
  "splitlines_aux cr acc [] = (if acc = [] then [] else [rev acc])"
| "splitlines_aux cr acc (c # cs) =
     (if cr \<and> c = CHR 0x0A then splitlines_aux False acc cs
      else if is_linebreak c then rev acc # splitlines_aux (c = CHR 0x0D) [] cs
      else splitlines_aux False (c # acc) cs)"

definition splitlines :: "string \<Rightarrow> string list" where
  "splitlines s = splitlines_aux False [] s"

text \<open>\<open>sep.join(xs)\<close>.\<close>

fun join :: "string \<Rightarrow> string list \<Rightarrow> string" where
  "join sep [] = []"
| "join sep [x] = x"
| "join sep (x # y # ys) = x @ sep @ join sep (y # ys)"

text \<open>\<open>xs.insert(i, x)\<close> for \<open>i \<ge> 0\<close>: an index past the end appends.\<close>

definition list_insert :: "nat \<Rightarrow> 'a \<Rightarrow> 'a list \<Rightarrow> 'a list" where
  "list_insert i x xs = take i xs @ [x] @ drop i xs"

text \<open>
  \<open>random.randint(lo, hi)\<close> for \<open>lo \<le> hi\<close>, from the draw \<open>r\<close> of the random source:
  every draw gives a value between \<open>lo\<close> and \<open>hi\<close>, and every such value is given by
  a draw.
\<close>

definition randint :: "nat \<Rightarrow> nat \<Rightarrow> nat \<Rightarrow> nat" where
  "randint lo hi r = lo + r mod (hi - lo + 1)"

text \<open>
  \<open>add_text_to_file\<close>. \<open>ts\<close> is the clock's timestamp for the backup and \<open>r\<close> the
  draw of the random source. The file is read, then opened for writing, which empties
  it, and the branch of \<open>position\<close> writes the new content; a position that is none of
  the three writes nothing. Every exception ends in the handler, which logs and
  returns \<open>False\<close>. \<open>create_backup\<close> has its own handler, so a failed backup does not
  stop the function.
\<close>

definition add_text_to_file ::
  "string \<Rightarrow> nat \<Rightarrow> path \<Rightarrow> string \<Rightarrow> string \<Rightarrow> bool \<Rightarrow> world \<Rightarrow> bool \<times> world" where
  "add_text_to_file ts r file_path text position do_backup w =
     (let w1 = (if do_backup then snd (create_backup ts file_path w) else w) in
      case files w1 file_path of
        None \<Rightarrow>
          (False, logging_error (''Error processing '' @ file_path @ '': ''
                                   @ str_exn (FileNotFoundError file_path)) w1)
      | Some content \<Rightarrow>
          let written =
                (if position = ''start'' then text @ [CHR 0x0A] @ content
                 else if position = ''end'' then content @ [CHR 0x0A] @ text
                 else if position = ''random'' then
                   (let lines = splitlines content;
                        insert_pos = randint 0 (length lines) r
                    in join [CHR 0x0A] (list_insert insert_pos text lines))
                 else []);
              w2 = w1\<lparr>files := (files w1)(file_path \<mapsto> written)\<rparr>
          in (True, logging_info (''Text added to '' @ position @ '' of '' @ file_path) w2))"

section \<open>FileProcessor\<close>

text \<open>
  A task is the queued triple \<open>(func, args, kwargs)\<close>. Calling it acts on the world and
  either returns a value or raises, an \<open>Exception\<close> or not. The sentinel is Python's
  \<open>None\<close>, so a queue item is a \<open>task option\<close>.
\<close>

datatype pyval = PyNone | PyBool bool | PyStr string

datatype outcome = Returned pyval | Raised exn

type_synonym task = "world \<Rightarrow> outcome \<times> world"

text \<open>The dictionary \<open>self.progress\<close>, with its three keys.\<close>

record progress =
  n_total :: int
  n_processed :: int
  n_errors :: int

text \<open>
  Where a worker thread stands in \<open>_worker\<close>. Each constructor is the point before
  one atomic action of the thread; a statement under \<open>with self.lock\<close> is one action.
\<close>

datatype wpc =
    W_Loop
  | W_Get
  | W_Call task
  | W_Processed
  | W_Except exn
  | W_Errors
  | W_Finally
  | W_Unwind exn
  | W_Exit
  | W_Died exn

text \<open>
  \<open>W_Loop\<close>: before the test of \<open>self.running\<close>. \<open>W_Get\<close>: in \<open>file_queue.get()\<close>.
  \<open>W_Call t\<close>: \<open>t\<close> is dequeued and its call has not returned. \<open>W_Processed\<close>: the call
  returned, before \<open>processed += 1\<close>. \<open>W_Except e\<close>: \<open>e\<close> is caught, before
  \<open>logging.error\<close>. \<open>W_Errors\<close>: before \<open>errors += 1\<close>. \<open>W_Finally\<close>: before
  \<open>task_done()\<close>. \<open>W_Unwind e\<close>: the call raised \<open>e\<close>, which the handler does not catch;
  before \<open>task_done()\<close> in the \<open>finally\<close> clause, with \<open>e\<close> still to be raised.
  \<open>W_Exit\<close>: \<open>_worker\<close> has returned. \<open>W_Died e\<close>: \<open>e\<close> has left \<open>_worker\<close> and ended
  the thread.
\<close>

fun terminated :: "wpc \<Rightarrow> bool" where
  "terminated W_Exit = True"
| "terminated (W_Died e) = True"
| "terminated pc = False"

text \<open>
  The thread that calls \<open>start_workers\<close> and \<open>stop_workers\<close> (one such call at a time),
  and the client threads that call \<open>add_task\<close>, \<open>get_progress\<close> and \<open>reset_progress\<close>.
  \<open>L_Start k\<close>: \<open>k\<close> workers are still to be started. \<open>L_StopPut k\<close>: \<open>k\<close> sentinels
  are still to be put. \<open>L_StopJoin j\<close>: before the join of \<open>self.workers[j]\<close>.
  \<open>C_AddTotal\<close>: in \<open>add_task\<close>, after the put and before \<open>total += 1\<close>.
\<close>

datatype lpc = L_Idle | L_Start nat | L_StopPut nat | L_StopJoin nat

datatype cpc = C_Idle | C_AddTotal

text \<open>
  The object and the threads around it. \<open>file_queue\<close> and \<open>unfinished_tasks\<close> are the
  \<open>queue.Queue\<close>: its items, head first, and its count of items put and not yet marked
  done. \<open>workers\<close> holds thread handles, a handle being the index of the thread in
  \<open>threads\<close>.
\<close>

record system =
  file_queue :: "task option list"
  unfinished_tasks :: int
  workers :: "nat list"
  running :: bool
  progress :: progress
  threads :: "wpc list"
  control :: lpc
  clients :: "cpc list"
  env :: world

text \<open>\<open>FileProcessor.__init__\<close>, with \<open>n\<close> client threads around the new object.\<close>

definition init :: "nat \<Rightarrow> world \<Rightarrow> system" where
  "init n w =
     \<lparr>file_queue = [], unfinished_tasks = 0, workers = [], running = False,
      progress = \<lparr>n_total = 0, n_processed = 0, n_errors = 0\<rparr>,
      threads = [], control = L_Idle, clients = replicate n C_Idle, env = w\<rparr>"

definition put :: "task option \<Rightarrow> system \<Rightarrow> system" where
  "put x s = s\<lparr>file_queue := file_queue s @ [x], unfinished_tasks := unfinished_tasks s + 1\<rparr>"

definition set_thread :: "nat \<Rightarrow> wpc \<Rightarrow> system \<Rightarrow> system" where
  "set_thread i pc s = s\<lparr>threads := (threads s)[i := pc]\<rparr>"

definition set_client :: "nat \<Rightarrow> cpc \<Rightarrow> system \<Rightarrow> system" where
  "set_client c pc s = s\<lparr>clients := (clients s)[c := pc]\<rparr>"

definition client_at :: "nat \<Rightarrow> cpc \<Rightarrow> system \<Rightarrow> bool" where
  "client_at c pc s = (c < length (clients s) \<and> clients s ! c = pc)"

definition joined :: "nat \<Rightarrow> system \<Rightarrow> bool" where
  "joined t s = (t < length (threads s) \<and> terminated (threads s ! t))"

text \<open>
  One atomic action of worker thread \<open>i\<close> in \<open>_worker\<close>; \<open>None\<close> when the thread
  cannot move: it does not exist, has ended, or waits in \<open>get()\<close> on an empty queue.
  The call of the task is one action. The handler is \<open>except Exception\<close>: an
  exception of the call that is no \<open>Exception\<close> is not caught, the \<open>finally\<close> clause
  runs and the exception leaves \<open>_worker\<close>, with nothing logged and no counter
  incremented. \<open>break\<close> on the sentinel leaves the loop before the \<open>try\<close>, so
  \<open>task_done()\<close> is not called for it. \<open>task_done()\<close> raises \<open>ValueError\<close> when no item
  is left unfinished, and nothing in \<open>_worker\<close> catches it.
\<close>

definition worker_step :: "nat \<Rightarrow> system \<Rightarrow> system option" where
  "worker_step i s =
     (if length (threads s) \<le> i then None
      else case threads s ! i of
        W_Loop \<Rightarrow> Some (set_thread i (if running s then W_Get else W_Exit) s)
      | W_Get \<Rightarrow>
          (case file_queue s of
             [] \<Rightarrow> None
           | None # q \<Rightarrow> Some (set_thread i W_Exit (s\<lparr>file_queue := q\<rparr>))
           | Some t # q \<Rightarrow> Some (set_thread i (W_Call t) (s\<lparr>file_queue := q\<rparr>)))
      | W_Call t \<Rightarrow>
          (case t (env s) of
             (Returned v, w) \<Rightarrow> Some (set_thread i W_Processed (s\<lparr>env := w\<rparr>))
           | (Raised e, w) \<Rightarrow>
               Some (set_thread i (if is_exception e then W_Except e else W_Unwind e)
                       (s\<lparr>env := w\<rparr>)))
      | W_Processed \<Rightarrow>
          Some (set_thread i W_Finally
                  (s\<lparr>progress := (progress s)\<lparr>n_processed := n_processed (progress s) + 1\<rparr>\<rparr>))
      | W_Except e \<Rightarrow>
          Some (set_thread i W_Errors
                  (s\<lparr>env := logging_error (''Error processing task: '' @ str_exn e) (env s)\<rparr>))
      | W_Errors \<Rightarrow>
          Some (set_thread i W_Finally
                  (s\<lparr>progress := (progress s)\<lparr>n_errors := n_errors (progress s) + 1\<rparr>\<rparr>))
      | W_Finally \<Rightarrow>
          (if unfinished_tasks s \<le> 0
           then Some (set_thread i (W_Died (ValueError ''task_done() called too many times'')) s)
           else Some (set_thread i W_Loop (s\<lparr>unfinished_tasks := unfinished_tasks s - 1\<rparr>)))
      | W_Unwind e \<Rightarrow>
          (if unfinished_tasks s \<le> 0
           then Some (set_thread i (W_Died (ValueError ''task_done() called too many times'')) s)
           else Some (set_thread i (W_Died e) (s\<lparr>unfinished_tasks := unfinished_tasks s - 1\<rparr>)))
      | W_Exit \<Rightarrow> None
      | W_Died e \<Rightarrow> None)"

text \<open>
  \<open>start_workers(n)\<close> and \<open>stop_workers()\<close>: the first action of the call, taken when
  the controlling thread is in no such call. \<open>len(self.workers)\<close> is read once, for the
  \<open>range\<close> of the first loop.
\<close>

definition start_workers :: "nat \<Rightarrow> system \<Rightarrow> system option" where
  "start_workers n s =
     (if control s = L_Idle then Some (s\<lparr>running := True, control := L_Start n\<rparr>) else None)"

definition stop_workers :: "system \<Rightarrow> system option" where
  "stop_workers s =
     (if control s = L_Idle
      then Some (s\<lparr>running := False, control := L_StopPut (length (workers s))\<rparr>)
      else None)"

text \<open>
  The next action of the controlling thread inside its call. Starting a thread and
  appending its handle are one action (no other thread reads \<open>self.workers\<close>). A join
  waits until the thread has ended. The last action of \<open>stop_workers\<close> is
  \<open>self.workers = []\<close>.
\<close>

definition control_step :: "system \<Rightarrow> system option" where
  "control_step s =
     (case control s of
        L_Idle \<Rightarrow> None
      | L_Start k \<Rightarrow>
          (case k of
             0 \<Rightarrow> Some (s\<lparr>control := L_Idle\<rparr>)
           | Suc k' \<Rightarrow>
               Some (s\<lparr>threads := threads s @ [W_Loop],
                       workers := workers s @ [length (threads s)],
                       control := L_Start k'\<rparr>))
      | L_StopPut k \<Rightarrow>
          (case k of
             0 \<Rightarrow> Some (s\<lparr>control := L_StopJoin 0\<rparr>)
           | Suc k' \<Rightarrow> Some ((put None s)\<lparr>control := L_StopPut k'\<rparr>))
      | L_StopJoin j \<Rightarrow>
          (if j < length (workers s)
           then (if joined (workers s ! j) s then Some (s\<lparr>control := L_StopJoin (Suc j)\<rparr>)
                 else None)
           else Some (s\<lparr>workers := [], control := L_Idle\<rparr>)))"

text \<open>
  \<open>add_task\<close>: the put, then (in \<open>client_step\<close>) \<open>total += 1\<close> under the lock.
  \<open>get_progress\<close> returns the copy of the dictionary, \<open>reset_progress\<close> replaces it;
  each is one action under the lock.
\<close>

definition add_task :: "nat \<Rightarrow> task \<Rightarrow> system \<Rightarrow> system option" where
  "add_task c t s =
     (if client_at c C_Idle s then Some (set_client c C_AddTotal (put (Some t) s)) else None)"

definition client_step :: "nat \<Rightarrow> system \<Rightarrow> system option" where
  "client_step c s =
     (if client_at c C_AddTotal s
      then Some (set_client c C_Idle
                   (s\<lparr>progress := (progress s)\<lparr>n_total := n_total (progress s) + 1\<rparr>\<rparr>))
      else None)"

definition get_progress :: "system \<Rightarrow> progress" where
  "get_progress s = progress s"

definition reset_progress :: "system \<Rightarrow> system" where
  "reset_progress s = s\<lparr>progress := \<lparr>n_total = 0, n_processed = 0, n_errors = 0\<rparr>\<rparr>"

text \<open>
  An event is one atomic action of one thread; a schedule is a list of events. \<open>step\<close>
  is \<open>None\<close> when the thread cannot take that action in that state, and \<open>run\<close> follows a
  schedule as long as every event of it can be taken. The interleavings of the program
  are the schedules that \<open>run\<close> accepts.
\<close>

datatype event =
    StartWorkers nat
  | StopWorkers
  | Control
  | AddTask nat task
  | GetProgress nat
  | ResetProgress nat
  | Client nat
  | Worker nat

fun step :: "event \<Rightarrow> system \<Rightarrow> system option" where
  "step (StartWorkers n) s = start_workers n s"
| "step StopWorkers s = stop_workers s"
| "step Control s = control_step s"
| "step (AddTask c t) s = add_task c t s"
| "step (GetProgress c) s = (if client_at c C_Idle s then Some s else None)"
| "step (ResetProgress c) s = (if client_at c C_Idle s then Some (reset_progress s) else None)"
| "step (Client c) s = client_step c s"
| "step (Worker i) s = worker_step i s"

fun run :: "event list \<Rightarrow> system \<Rightarrow> system option" where
  "run [] s = Some s"
| "run (e # es) s = (case step e s of None \<Rightarrow> None | Some s' \<Rightarrow> run es s')"

section \<open>Observations on states and schedules\<close>

text \<open>Whether an event can be taken in a state.\<close>

definition enabled :: "event \<Rightarrow> system \<Rightarrow> bool" where
  "enabled e s = (case step e s of None \<Rightarrow> False | Some s' \<Rightarrow> True)"

text \<open>The sum of a weight over a list: the number of threads at some point, and so on.\<close>

definition tally :: "('a \<Rightarrow> int) \<Rightarrow> 'a list \<Rightarrow> int" where
  "tally f xs = sum_list (map f xs)"

text \<open>
  \<open>uncounted\<close>: the worker has taken a task from the queue and has not yet added it to
  \<open>processed\<close> or \<open>errors\<close>. \<open>holding\<close>: it has taken a task and not yet called
  \<open>task_done()\<close>. \<open>waiting\<close>: it is in \<open>get()\<close>. \<open>pending\<close>: the client has put its task
  and not yet added it to \<open>total\<close>.
\<close>

fun uncounted :: "wpc \<Rightarrow> int" where
  "uncounted (W_Call t) = 1"
| "uncounted W_Processed = 1"
| "uncounted (W_Except e) = 1"
| "uncounted W_Errors = 1"
| "uncounted pc = 0"


fun waiting :: "wpc \<Rightarrow> int" where
  "waiting W_Get = 1"
| "waiting pc = 0"


fun pending :: "cpc \<Rightarrow> int" where
  "pending C_AddTotal = 1"
| "pending C_Idle = 0"

fun is_task :: "task option \<Rightarrow> int" where
  "is_task None = 0"
| "is_task (Some t) = 1"

fun is_sentinel :: "task option \<Rightarrow> int" where
  "is_sentinel None = 1"
| "is_sentinel (Some t) = 0"

fun tasks_of :: "task option list \<Rightarrow> task list" where
  "tasks_of [] = []"
| "tasks_of (None # xs) = tasks_of xs"
| "tasks_of (Some t # xs) = t # tasks_of xs"

text \<open>The tasks whose call is under way, in the order of the threads.\<close>

fun calling :: "wpc \<Rightarrow> task list" where
  "calling (W_Call t) = [t]"
| "calling pc = []"

definition in_flight :: "system \<Rightarrow> task list" where
  "in_flight s = concat (map calling (threads s))"

text \<open>
  A quiescent state: no task is in the queue, none is with a worker and not yet
  counted, and no \<open>add_task\<close> is between its put and its increment. A fresh state is
  quiescent with all counters zero: the state after \<open>__init__\<close>, or after
  \<open>reset_progress\<close> on an idle pool.
\<close>

definition quiescent :: "system \<Rightarrow> bool" where
  "quiescent s =
     (tally is_task (file_queue s) = 0 \<and> tally uncounted (threads s) = 0
      \<and> tally pending (clients s) = 0)"

definition fresh :: "system \<Rightarrow> bool" where
  "fresh s = (progress s = \<lparr>n_total = 0, n_processed = 0, n_errors = 0\<rparr> \<and> quiescent s)"

text \<open>Kinds of events.\<close>

fun is_reset :: "event \<Rightarrow> bool" where
  "is_reset (ResetProgress c) = True"
| "is_reset e = False"


fun is_lifecycle_call :: "event \<Rightarrow> bool" where
  "is_lifecycle_call (StartWorkers n) = True"
| "is_lifecycle_call StopWorkers = True"
| "is_lifecycle_call e = False"

fun is_thread_action :: "event \<Rightarrow> bool" where
  "is_thread_action Control = True"
| "is_thread_action (Worker i) = True"
| "is_thread_action e = False"

text \<open>
  What one event does to the queue and to the tasks when taken in a state: the items it
  puts, the item it gets, the task whose call it completes, the task whose call raises
  an exception that the worker's handler does not catch. \<open>collect\<close> gathers these along
  a schedule, in order.
\<close>

fun puts_of :: "event \<Rightarrow> system \<Rightarrow> task option list" where
  "puts_of (AddTask c t) s = [Some t]"
| "puts_of Control s = (case control s of L_StopPut (Suc k) \<Rightarrow> [None] | _ \<Rightarrow> [])"
| "puts_of e s = []"

fun gets_of :: "event \<Rightarrow> system \<Rightarrow> task option list" where
  "gets_of (Worker i) s =
     (if i < length (threads s)
      then (case threads s ! i of W_Get \<Rightarrow> take 1 (file_queue s) | _ \<Rightarrow> [])
      else [])"
| "gets_of e s = []"

fun completes_of :: "event \<Rightarrow> system \<Rightarrow> task list" where
  "completes_of (Worker i) s = (if i < length (threads s) then calling (threads s ! i) else [])"
| "completes_of e s = []"

fun escaping :: "task \<Rightarrow> world \<Rightarrow> task list" where
  "escaping t w =
     (case fst (t w) of
        Returned v \<Rightarrow> []
      | Raised e \<Rightarrow> (if is_exception e then [] else [t]))"

fun escapes_of :: "event \<Rightarrow> system \<Rightarrow> task list" where
  "escapes_of (Worker i) s =
     (if i < length (threads s)
      then (case threads s ! i of W_Call t \<Rightarrow> escaping t (env s) | _ \<Rightarrow> [])
      else [])"
| "escapes_of e s = []"

fun collect :: "(event \<Rightarrow> system \<Rightarrow> 'a list) \<Rightarrow> event list \<Rightarrow> system \<Rightarrow> 'a list" where
  "collect f [] s = []"
| "collect f (e # es) s = (case step e s of None \<Rightarrow> [] | Some s' \<Rightarrow> f e s @ collect f es s')"

text \<open>
  Invariants. \<open>deficit\<close>: the tasks put (counted in \<open>total\<close>, or about to be by their
  \<open>add_task\<close>) that are in none of these places: counted as processed or as an error,
  in the queue, with a worker that has not yet counted them. \<open>adds_seen\<close>: the calls of
  \<open>add_task\<close> that have put their task. \<open>accounted\<close>: the queue's count of unfinished
  items covers the queued items and the tasks the workers hold, and every thread is
  \<open>sound\<close>. \<open>tracked\<close>: the handles in \<open>self.workers\<close> are the threads started since
  the last \<open>stop_workers\<close>; the threads before them, and those already joined, have
  ended.
\<close>

definition deficit :: "system \<Rightarrow> int" where
  "deficit s =
     n_total (progress s) + tally pending (clients s)
     - (n_processed (progress s) + n_errors (progress s) + tally is_task (file_queue s)
        + tally uncounted (threads s))"



fun joined_upto :: "lpc \<Rightarrow> nat" where
  "joined_upto (L_StopJoin j) = j"
| "joined_upto pc = 0"

definition first_tracked :: "system \<Rightarrow> nat" where
  "first_tracked s = length (threads s) - length (workers s)"

definition tracked :: "system \<Rightarrow> bool" where
  "tracked s =
     (length (workers s) \<le> length (threads s)
      \<and> workers s = [first_tracked s ..< length (threads s)]
      \<and> joined_upto (control s) \<le> length (workers s)
      \<and> list_all terminated (take (first_tracked s + joined_upto (control s)) (threads s)))"

text \<open>
  The measure of \<open>stop_workers\<close>: the actions its caller has left, and for each worker
  the most actions it can take before it ends, once \<open>running\<close> is false.
\<close>

fun steps_left :: "wpc \<Rightarrow> int" where
  "steps_left W_Get = 6"
| "steps_left (W_Call t) = 5"
| "steps_left (W_Except e) = 4"
| "steps_left W_Processed = 3"
| "steps_left W_Errors = 3"
| "steps_left W_Finally = 2"
| "steps_left W_Loop = 1"
| "steps_left (W_Unwind e) = 1"
| "steps_left W_Exit = 0"
| "steps_left (W_Died e) = 0"

fun puts_left :: "lpc \<Rightarrow> int" where
  "puts_left (L_StopPut k) = int k"
| "puts_left pc = 0"

definition control_left :: "system \<Rightarrow> int" where
  "control_left s =
     (case control s of
        L_Idle \<Rightarrow> 0
      | L_Start k \<Rightarrow> int k + 1
      | L_StopPut k \<Rightarrow> int k + int (length (workers s)) + 2
      | L_StopJoin j \<Rightarrow> int (length (workers s)) - int j + 1)"

definition stop_bound :: "system \<Rightarrow> int" where
  "stop_bound s = control_left s + tally steps_left (threads s)"

fun is_start :: "lpc \<Rightarrow> bool" where
  "is_start (L_Start k) = True"
| "is_start pc = False"

definition stopping :: "system \<Rightarrow> bool" where
  "stopping s =
     (\<not> running s \<and> tracked s \<and> \<not> is_start (control s)
      \<and> tally waiting (threads s) \<le> int (length (file_queue s)) + puts_left (control s)
      \<and> (control s \<noteq> L_Idle \<or> (list_all terminated (threads s) \<and> workers s = [])))"

section \<open>Example inputs\<close>

definition one_file :: world where
  "one_file = \<lparr>files = Map.empty(''a.txt'' \<mapsto> ''hello''), log = []\<rparr>"

text \<open>Tasks: one that returns a value, one that raises, and \<open>restore_backup\<close> queued.\<close>

definition returns :: "pyval \<Rightarrow> task" where
  "returns v w = (Returned v, w)"

definition raises :: "exn \<Rightarrow> task" where
  "raises e w = (Raised e, w)"



text \<open>
  A schedule that starts two workers, adds two tasks and lets the first worker take one;
  and a schedule of \<open>stop_workers\<close> after it, up to the return of the call.
\<close>

definition before_stop :: "event list" where
  "before_stop =
     [StartWorkers 2, Control, Control, Control, AddTask 0 (returns PyNone), Client 0,
      AddTask 0 (returns PyNone), Client 0, Worker 0, Worker 0]"

definition during_stop :: "event list" where
  "during_stop =
     [Control, Control, Control, Worker 0, Worker 0, Worker 0, Worker 0,
      Control, Worker 1, Control, Control]"

text \<open>
  A schedule of one worker and two tasks: the worker takes the first, completes it and
  takes the second. A schedule of two workers and three tasks, one that returns, one
  that raises an \<open>Exception\<close> and one that raises \<open>SystemExit\<close>, up to quiescence.
\<close>

definition two_tasks :: "event list" where
  "two_tasks =
     [StartWorkers 1, Control, Control, AddTask 0 (returns PyNone), Client 0,
      AddTask 0 (raises (PyException ''boom'')), Client 0,
      Worker 0, Worker 0, Worker 0, Worker 0, Worker 0, Worker 0, Worker 0]"


section \<open>Properties of the file operations\<close>

lemma endswith_append: "endswith (p @ suf) suf"
  by (simp add: endswith_def)

lemma slice_to_minus_append: "slice_to_minus (p @ suf) (length suf) = p"
  by (simp add: slice_to_minus_def)

text \<open>
  What \<open>restore_backup\<close> does with the path \<open>create_backup\<close> returned: for an existing
  file \<open>p\<close>, the backup is \<open>p_<ts>.bak.cu\<close>, and the restore writes the content to
  \<open>p_<ts>\<close>, the backup path less the suffix, which keeps the timestamp.
\<close>

lemma create_backup_existing:
  "files w p = Some c \<Longrightarrow>
   create_backup ts p w =
     (Some (p @ ''_'' @ ts @ BACKUP_EXTENSION),
      logging_info (''Backup created: '' @ p @ ''_'' @ ts @ BACKUP_EXTENSION)
        (w\<lparr>files := (files w)(p @ ''_'' @ ts @ BACKUP_EXTENSION \<mapsto> c)\<rparr>))"
  by (simp add: create_backup_def copy2_def BACKUP_EXTENSION_def Let_def)

lemma restore_after_backup_target:
  assumes "files w p = Some c"
  shows "files (snd (restore_backup (p @ ''_'' @ ts @ BACKUP_EXTENSION)
                       (snd (create_backup ts p w))))
         = (files (snd (create_backup ts p w)))(p @ ''_'' @ ts \<mapsto> c)"
proof -
  have e: "endswith ((p @ ''_'' @ ts) @ BACKUP_EXTENSION) BACKUP_EXTENSION"
    by (rule endswith_append)
  have t: "slice_to_minus ((p @ ''_'' @ ts) @ BACKUP_EXTENSION) (length BACKUP_EXTENSION)
           = p @ ''_'' @ ts"
    by (rule slice_to_minus_append)
  have n: "p @ ''_'' @ ts @ BACKUP_EXTENSION \<noteq> p @ ''_'' @ ts"
    by (simp add: BACKUP_EXTENSION_def)
  from e t n show ?thesis
    by (simp add: create_backup_existing [OF assms] restore_backup_def copy2_def
        logging_info_def Let_def)
qed

text \<open>
  C1. The backup of \<open>a.txt\<close> (content \<open>hello\<close>) taken at \<open>20240101_120000\<close> is
  \<open>a.txt_20240101_120000.bak.cu\<close>. Restoring that path succeeds and writes \<open>hello\<close> to
  \<open>a.txt_20240101_120000\<close>: that file is the only change to the filesystem, so the path
  of the restored file is not the original path \<open>a.txt\<close>.
\<close>

theorem backup_restore_keeps_timestamp:
  "fst (create_backup ''20240101_120000'' ''a.txt'' one_file)
     = Some ''a.txt_20240101_120000.bak.cu''
   \<and> fst (restore_backup ''a.txt_20240101_120000.bak.cu''
            (snd (create_backup ''20240101_120000'' ''a.txt'' one_file))) = True
   \<and> files (snd (restore_backup ''a.txt_20240101_120000.bak.cu''
                   (snd (create_backup ''20240101_120000'' ''a.txt'' one_file))))
       = (files (snd (create_backup ''20240101_120000'' ''a.txt'' one_file)))
           (''a.txt_20240101_120000'' \<mapsto> ''hello'')
   \<and> ''a.txt_20240101_120000'' \<noteq> ''a.txt''"
  by (simp add: create_backup_def restore_backup_def one_file_def copy2_def
      BACKUP_EXTENSION_def logging_info_def endswith_def slice_to_minus_def Let_def)

text \<open>
  C9. When the target file exists and \<open>position\<close> is none of \<open>start\<close>, \<open>end\<close> and
  \<open>random\<close>, \<open>add_text_to_file\<close> returns \<open>True\<close> and leaves the file with empty
  content, with or without the backup.
\<close>

theorem add_text_to_file_unknown_position:
  assumes "files w file_path = Some content"
    and "position \<noteq> ''start''" and "position \<noteq> ''end''" and "position \<noteq> ''random''"
  shows "fst (add_text_to_file ts r file_path text position do_backup w) = True
         \<and> files (snd (add_text_to_file ts r file_path text position do_backup w)) file_path
             = Some []"
proof (cases do_backup)
  case True
  with assms show ?thesis
    by (simp add: add_text_to_file_def create_backup_existing logging_info_def Let_def)
next
  case False
  with assms show ?thesis
    by (simp add: add_text_to_file_def logging_info_def Let_def)
qed

theorem add_text_to_file_unknown_position_witness:
  "files one_file ''a.txt'' = Some ''hello''
   \<and> fst (add_text_to_file ''20240101_120000'' 0 ''a.txt'' ''x'' ''middle'' True one_file) = True
   \<and> files (snd (add_text_to_file ''20240101_120000'' 0 ''a.txt'' ''x'' ''middle'' True one_file))
        ''a.txt'' = Some []"
proof -
  have h: "files one_file ''a.txt'' = Some ''hello''"
    by (simp add: one_file_def)
  show ?thesis
    using h add_text_to_file_unknown_position
      [OF h, of "''middle''" "''20240101_120000''" 0 "''x''" True]
    by simp
qed

text \<open>
  C10. For a path that does not end in \<open>.bak.cu\<close>, \<open>restore_backup\<close> returns \<open>False\<close>
  and the filesystem afterwards is the filesystem before: no copy took place. (The
  only effect is the log entry.)
\<close>

theorem restore_backup_invalid_suffix:
  assumes "\<not> endswith backup_path ''.bak.cu''"
  shows "BACKUP_EXTENSION = ''.bak.cu''
         \<and> fst (restore_backup backup_path w) = False
         \<and> files (snd (restore_backup backup_path w)) = files w
         \<and> log (snd (restore_backup backup_path w))
             = log w @ [ERROR (''Invalid backup file: '' @ backup_path)]"
  using assms by (simp add: restore_backup_def logging_error_def BACKUP_EXTENSION_def)

theorem restore_backup_invalid_suffix_witness:
  "\<not> endswith ''a.txt'' ''.bak.cu''
   \<and> fst (restore_backup ''a.txt'' one_file) = False
   \<and> files (snd (restore_backup ''a.txt'' one_file)) = files one_file"
proof -
  have h: "\<not> endswith ''a.txt'' ''.bak.cu''"
    by (simp add: endswith_def)
  show ?thesis
    using h restore_backup_invalid_suffix [OF h, of one_file] by simp
qed

section \<open>Properties of the pool\<close>

subsection \<open>Sums over lists\<close>

text \<open>
  Replacing one element of a list changes the sum by the difference of the two weights:
  the form in which an action of one thread enters every count below.
\<close>

lemma tally_Nil [simp]: "tally f [] = 0"
  by (simp add: tally_def)

lemma tally_Cons [simp]: "tally f (x # xs) = f x + tally f xs"
  by (simp add: tally_def)

lemma tally_append [simp]: "tally f (xs @ ys) = tally f xs + tally f ys"
  by (simp add: tally_def)

lemma tally_update: "i < length xs \<Longrightarrow> tally f (xs[i := y]) = tally f xs - f (xs ! i) + f y"
proof (induction xs arbitrary: i)
  case Nil
  then show ?case by simp
next
  case (Cons x xs)
  then show ?case by (cases i) simp_all
qed

lemma tally_replicate [simp]: "tally f (replicate n x) = int n * f x"
  by (induction n) (simp_all add: algebra_simps)

lemma tally_nonneg: "(\<And>x. 0 \<le> f x) \<Longrightarrow> 0 \<le> tally f xs"
  by (induction xs) (simp_all add: add_nonneg_nonneg)

lemma tally_ge_nth: "(\<And>x. 0 \<le> f x) \<Longrightarrow> i < length xs \<Longrightarrow> f (xs ! i) \<le> tally f xs"
proof (induction xs arbitrary: i)
  case Nil
  then show ?case by simp
next
  case (Cons x xs)
  show ?case
  proof (cases i)
    case 0
    with Cons.prems(1) tally_nonneg [of f xs] show ?thesis by simp
  next
    case (Suc j)
    have "f (xs ! j) \<le> tally f xs"
      using Cons.IH [of j] Cons.prems Suc by simp
    moreover have "0 \<le> f x"
      by (rule Cons.prems(1))
    ultimately show ?thesis
      using Suc by simp
  qed
qed

lemma uncounted_nonneg: "0 \<le> uncounted pc"
  by (cases pc) simp_all


lemma waiting_nonneg: "0 \<le> waiting pc"
  by (cases pc) simp_all

lemma pending_nonneg: "0 \<le> pending pc"
  by (cases pc) simp_all

lemma is_task_nonneg: "0 \<le> is_task x"
  by (cases x) simp_all

subsection \<open>Every task is in one place\<close>

text \<open>
  Every action other than \<open>reset_progress\<close> leaves \<open>deficit\<close> as it is, but for the call
  of a task that raises past the worker's handler, which adds one to it; and it changes
  \<open>adds_seen\<close> exactly when it is the put of an \<open>add_task\<close>.
\<close>

lemma deficit_worker:
  "worker_step i s = Some s' \<Longrightarrow>
   deficit s' = deficit s + int (length (escapes_of (Worker i) s))"
  by (auto simp: worker_step_def set_thread_def deficit_def tally_update
      split: if_splits wpc.splits list.splits option.splits prod.splits outcome.splits)

lemma deficit_control: "control_step s = Some s' \<Longrightarrow> deficit s' = deficit s"
  by (auto simp: control_step_def put_def deficit_def
      split: if_splits lpc.splits nat.splits)

lemma deficit_step:
  assumes "step e s = Some s'" and "\<not> is_reset e"
  shows "deficit s' = deficit s + int (length (escapes_of e s))"
proof (cases e)
  case (Worker i)
  with assms show ?thesis using deficit_worker by simp
next
  case Control
  with assms show ?thesis using deficit_control by simp
next
  case (AddTask c t)
  with assms show ?thesis
    by (auto simp: add_task_def set_client_def client_at_def put_def deficit_def tally_update
        split: if_splits)
next
  case (Client c)
  with assms show ?thesis
    by (auto simp: client_step_def set_client_def client_at_def deficit_def tally_update
        split: if_splits)
qed (use assms in \<open>auto simp: start_workers_def stop_workers_def deficit_def split: if_splits\<close>)

lemma deficit_run:
  "run es s = Some s' \<Longrightarrow> \<not> list_ex is_reset es \<Longrightarrow>
   deficit s' = deficit s + int (length (collect escapes_of es s))"
proof (induction es arbitrary: s)
  case Nil
  then show ?case by simp
next
  case (Cons e es)
  then show ?case by (auto split: option.splits dest: deficit_step)
qed

lemma fresh_deficit: "fresh s \<Longrightarrow> deficit s = 0"
  by (simp add: fresh_def quiescent_def deficit_def)



lemma fresh_init: "fresh (init n w)"
  by (simp add: fresh_def quiescent_def init_def)

subsection \<open>The queue's count of unfinished items\<close>








subsection \<open>A worker on one task\<close>


lemma worker_call_escaped:
  assumes "i < length (threads s)" and "threads s ! i = W_Call t" and "t (env s) = (Raised e, w)"
    and "\<not> is_exception e" and "0 < unfinished_tasks s"
  shows "run [Worker i, Worker i] s =
    Some (set_thread i (W_Died e) (s\<lparr>env := w, unfinished_tasks := unfinished_tasks s - 1\<rparr>))"
  using assms by (simp add: worker_step_def set_thread_def)


lemmas run_defs = worker_step_def control_step_def start_workers_def stop_workers_def
  add_task_def client_step_def set_thread_def set_client_def client_at_def joined_def put_def
  reset_progress_def init_def

subsection \<open>Where a worker stands\<close>






subsection \<open>The queue is first in, first out\<close>

text \<open>
  Each action puts at the tail or takes from the head. With at most one thread, a task
  is taken only when none is under way.
\<close>

lemma fifo_worker:
  "worker_step i s = Some s' \<Longrightarrow> file_queue s = gets_of (Worker i) s @ file_queue s'"
  by (auto simp: worker_step_def set_thread_def
      split: if_splits wpc.splits list.splits option.splits prod.splits outcome.splits)

lemma fifo_control:
  "control_step s = Some s' \<Longrightarrow> file_queue s @ puts_of Control s = file_queue s'"
  by (auto simp: control_step_def put_def split: if_splits lpc.splits nat.splits)

lemma fifo_step:
  assumes "step e s = Some s'"
  shows "file_queue s @ puts_of e s = gets_of e s @ file_queue s'"
proof (cases e)
  case (Worker i)
  with assms show ?thesis using fifo_worker [of i s s'] by simp
next
  case Control
  with assms show ?thesis using fifo_control by simp
qed (use assms in \<open>auto simp: start_workers_def stop_workers_def add_task_def client_step_def
      set_client_def put_def reset_progress_def split: if_splits\<close>)

lemma fifo_run:
  "run es s = Some s' \<Longrightarrow>
   file_queue s @ collect puts_of es s = collect gets_of es s @ file_queue s'"
proof (induction es arbitrary: s)
  case Nil
  then show ?case by simp
next
  case (Cons e es)
  from Cons.prems obtain s1 where 1: "step e s = Some s1" and 2: "run es s1 = Some s'"
    by (auto split: option.splits)
  have "file_queue s @ collect puts_of (e # es) s
        = (file_queue s @ puts_of e s) @ collect puts_of es s1"
    using 1 by simp
  also have "\<dots> = gets_of e s @ (file_queue s1 @ collect puts_of es s1)"
    using fifo_step [OF 1] by simp
  also have "\<dots> = gets_of e s @ collect gets_of es s1 @ file_queue s'"
    using Cons.IH [OF 2] by simp
  finally show ?case
    using 1 by simp
qed

lemma threads_mono_step: "step e s = Some s' \<Longrightarrow> length (threads s) \<le> length (threads s')"
proof (cases e)
  case (Worker i)
  then show "step e s = Some s' \<Longrightarrow> ?thesis"
    by (auto simp: worker_step_def set_thread_def
      split: if_splits wpc.splits list.splits option.splits prod.splits outcome.splits)
next
  case Control
  then show "step e s = Some s' \<Longrightarrow> ?thesis"
    by (auto simp: control_step_def put_def split: if_splits lpc.splits nat.splits)
qed (auto simp: start_workers_def stop_workers_def add_task_def client_step_def
      set_client_def put_def reset_progress_def split: if_splits)

lemma threads_mono_run: "run es s = Some s' \<Longrightarrow> length (threads s) \<le> length (threads s')"
proof (induction es arbitrary: s)
  case Nil
  then show ?case by simp
next
  case (Cons e es)
  then show ?case
    by (auto split: option.splits dest!: threads_mono_step intro: order_trans)
qed

lemma single_worker:
  assumes "worker_step i s = Some s'" and "length (threads s) \<le> 1"
  shows "in_flight s @ tasks_of (gets_of (Worker i) s) = completes_of (Worker i) s @ in_flight s'"
proof -
  from assms have i: "i = 0" and l: "length (threads s) = 1"
    by (auto simp: worker_step_def split: if_splits)
  from l obtain pc where t: "threads s = [pc]"
    by (cases "threads s") auto
  with assms(1) i show ?thesis
    by (cases pc) (auto simp: worker_step_def set_thread_def in_flight_def
        split: if_splits list.splits option.splits prod.splits outcome.splits)
qed

lemma single_control:
  "control_step s = Some s' \<Longrightarrow> in_flight s = in_flight s'"
  by (auto simp: control_step_def put_def in_flight_def split: if_splits lpc.splits nat.splits)

lemma single_step:
  assumes "step e s = Some s'" and "length (threads s) \<le> 1"
  shows "in_flight s @ tasks_of (gets_of e s) = completes_of e s @ in_flight s'"
proof (cases e)
  case (Worker i)
  with assms show ?thesis using single_worker [of i s s'] by simp
next
  case Control
  with assms show ?thesis using single_control by simp
qed (use assms in \<open>auto simp: start_workers_def stop_workers_def add_task_def client_step_def
      set_client_def put_def reset_progress_def in_flight_def split: if_splits\<close>)

lemma tasks_of_append [simp]: "tasks_of (xs @ ys) = tasks_of xs @ tasks_of ys"
  by (induction xs rule: tasks_of.induct) simp_all

lemma single_run:
  "run es s = Some s' \<Longrightarrow> length (threads s') \<le> 1 \<Longrightarrow>
   in_flight s @ tasks_of (collect gets_of es s) = collect completes_of es s @ in_flight s'"
proof (induction es arbitrary: s)
  case Nil
  then show ?case by simp
next
  case (Cons e es)
  from Cons.prems obtain s1 where 1: "step e s = Some s1" and 2: "run es s1 = Some s'"
    by (auto split: option.splits)
  have "length (threads s1) \<le> 1"
    using threads_mono_run [OF 2] Cons.prems(2) by simp
  then have l: "length (threads s) \<le> 1"
    using threads_mono_step [OF 1] by simp
  have "in_flight s @ tasks_of (collect gets_of (e # es) s)
        = (in_flight s @ tasks_of (gets_of e s)) @ tasks_of (collect gets_of es s1)"
    using 1 by simp
  also have "\<dots> = completes_of e s @ (in_flight s1 @ tasks_of (collect gets_of es s1))"
    using single_step [OF 1 l] by simp
  also have "\<dots> = completes_of e s @ collect completes_of es s1 @ in_flight s'"
    using Cons.IH [OF 2 Cons.prems(2)] by simp
  finally show ?case
    using 1 by simp
qed

lemma two_tasks_example:
  "\<exists>s'. run two_tasks (init 1 one_file) = Some s' \<and> length (threads s') = 1
      \<and> file_queue s' = [] \<and> in_flight s' = [raises (PyException ''boom'')]"
  by (simp add: two_tasks_def run_defs in_flight_def returns_def raises_def)

lemma two_tasks_puts:
  "collect puts_of two_tasks (init 1 one_file)
   = [Some (returns PyNone), Some (raises (PyException ''boom''))]"
  by (simp add: two_tasks_def run_defs returns_def raises_def)

lemma two_tasks_completes:
  "collect completes_of two_tasks (init 1 one_file) = [returns PyNone]"
  by (simp add: two_tasks_def run_defs returns_def raises_def)

subsection \<open>The handles and the threads\<close>

text \<open>Every action keeps \<open>tracked\<close>: a thread that has not ended has its handle in the list.\<close>

lemma worker_step_shape:
  assumes "worker_step i s = Some s'"
  shows "i < length (threads s) \<and> \<not> terminated (threads s ! i)
         \<and> threads s' = (threads s)[i := threads s' ! i]
         \<and> workers s' = workers s \<and> control s' = control s \<and> running s' = running s
         \<and> clients s' = clients s"
  using assms
  by (auto simp: worker_step_def set_thread_def
      split: if_splits wpc.splits list.splits option.splits prod.splits outcome.splits)

lemma take_update_alive:
  assumes "list_all terminated (take k xs)" and "\<not> terminated (xs ! i)" and "i < length xs"
  shows "take k (xs[i := y]) = take k xs"
proof -
  have "k \<le> i"
  proof (rule ccontr)
    assume "\<not> k \<le> i"
    then have "i < length (take k xs)" and "take k xs ! i = xs ! i"
      using assms(3) by simp_all
    with assms(1) have "terminated (xs ! i)"
      by (metis list_all_length)
    with assms(2) show False by simp
  qed
  then show ?thesis by simp
qed

lemma trackedI:
  assumes "length (workers s) \<le> length (threads s)"
    and "workers s = [first_tracked s ..< length (threads s)]"
    and "joined_upto (control s) \<le> length (workers s)"
    and "list_all terminated (take (first_tracked s + joined_upto (control s)) (threads s))"
  shows "tracked s"
  using assms by (simp add: tracked_def)

lemma trackedD:
  assumes "tracked s"
  shows "length (workers s) \<le> length (threads s)"
    and "workers s = [first_tracked s ..< length (threads s)]"
    and "joined_upto (control s) \<le> length (workers s)"
    and "list_all terminated (take (first_tracked s + joined_upto (control s)) (threads s))"
  using assms unfolding tracked_def by blast+

lemma tracked_transfer:
  assumes "tracked s" and "workers s' = workers s"
    and "length (threads s') = length (threads s)"
    and "joined_upto (control s') = joined_upto (control s)"
    and "take (first_tracked s + joined_upto (control s)) (threads s')
         = take (first_tracked s + joined_upto (control s)) (threads s)"
  shows "tracked s'"
proof (rule trackedI)
  have f: "first_tracked s' = first_tracked s"
    using assms(2,3) by (simp add: first_tracked_def)
  show "length (workers s') \<le> length (threads s')"
    using trackedD(1) [OF assms(1)] by (simp add: assms(2,3))
  show "workers s' = [first_tracked s' ..< length (threads s')]"
    using trackedD(2) [OF assms(1)] by (simp add: assms(2,3) f)
  show "joined_upto (control s') \<le> length (workers s')"
    using trackedD(3) [OF assms(1)] by (simp add: assms(2,4))
  show "list_all terminated (take (first_tracked s' + joined_upto (control s')) (threads s'))"
    using trackedD(4) [OF assms(1)] by (simp add: assms(4,5) f)
qed

lemma tracked_worker:
  assumes "worker_step i s = Some s'" and "tracked s"
  shows "tracked s'"
proof -
  from worker_step_shape [OF assms(1)] obtain pc where
    i: "i < length (threads s)" and a: "\<not> terminated (threads s ! i)"
    and t: "threads s' = (threads s)[i := pc]"
    and w: "workers s' = workers s" and c: "control s' = control s"
    by blast
  have "take (first_tracked s + joined_upto (control s)) ((threads s)[i := pc])
        = take (first_tracked s + joined_upto (control s)) (threads s)"
    using trackedD(4) [OF assms(2)] a i by (rule take_update_alive)
  then show ?thesis
    using tracked_transfer [OF assms(2) w, of ] by (simp add: t c)
qed

lemma tracked_control:
  assumes "control_step s = Some s'" and "tracked s"
  shows "tracked s'"
proof (cases "control s")
  case L_Idle
  with assms show ?thesis by (simp add: control_step_def)
next
  case (L_Start k)
  note l = trackedD(1) [OF assms(2)] and w = trackedD(2) [OF assms(2)]
  have a: "list_all terminated (take (first_tracked s) (threads s))"
    using trackedD(4) [OF assms(2)] L_Start by simp
  show ?thesis
  proof (cases k)
    case 0
    with L_Start assms(1) have "workers s' = workers s" and "threads s' = threads s"
      and "control s' = L_Idle"
      by (auto simp: control_step_def)
    with assms(2) L_Start show ?thesis
      by (simp add: tracked_transfer)
  next
    case (Suc k')
    with L_Start assms(1) have t': "threads s' = threads s @ [W_Loop]"
      and w': "workers s' = workers s @ [length (threads s)]"
      and c': "control s' = L_Start k'"
      by (auto simp: control_step_def)
    have f: "first_tracked s' = first_tracked s"
      using l by (simp add: t' w' first_tracked_def)
    have m: "first_tracked s \<le> length (threads s)"
      by (simp add: first_tracked_def)
    show ?thesis
    proof (rule trackedI)
      show "length (workers s') \<le> length (threads s')"
        using l by (simp add: t' w')
      have "[first_tracked s ..< Suc (length (threads s))]
               = [first_tracked s ..< length (threads s)] @ [length (threads s)]"
        using m by simp
      with w show "workers s' = [first_tracked s' ..< length (threads s')]"
        by (simp add: t' w' f)
      show "joined_upto (control s') \<le> length (workers s')"
        by (simp add: c')
      have "take (first_tracked s) (threads s @ [W_Loop]) = take (first_tracked s) (threads s)"
        using m by simp
      with a show
        "list_all terminated (take (first_tracked s' + joined_upto (control s')) (threads s'))"
        by (simp add: t' c' f)
    qed
  qed
next
  case (L_StopPut k)
  from L_StopPut assms(1) have "workers s' = workers s" and "threads s' = threads s"
    and "joined_upto (control s') = 0"
    by (cases k; auto simp: control_step_def put_def)+
  with assms(2) L_StopPut show ?thesis
    by (simp add: tracked_transfer)
next
  case (L_StopJoin j)
  note l = trackedD(1) [OF assms(2)] and w = trackedD(2) [OF assms(2)]
  have j: "j \<le> length (workers s)"
    using trackedD(3) [OF assms(2)] L_StopJoin by simp
  have a: "list_all terminated (take (first_tracked s + j) (threads s))"
    using trackedD(4) [OF assms(2)] L_StopJoin by simp
  show ?thesis
  proof (cases "j < length (workers s)")
    case True
    with L_StopJoin assms(1) have jd: "joined (workers s ! j) s"
      and t': "threads s' = threads s" and w': "workers s' = workers s"
      and c': "control s' = L_StopJoin (Suc j)"
      by (auto simp: control_step_def split: if_splits)
    have f: "first_tracked s' = first_tracked s"
      by (simp add: t' w' first_tracked_def)
    have b: "first_tracked s + j < length (threads s)"
      using True l by (simp add: first_tracked_def)
    have "[first_tracked s ..< length (threads s)] ! j = first_tracked s + j"
      using b by (rule nth_upt)
    then have n: "workers s ! j = first_tracked s + j"
      using w by simp
    have "terminated (threads s ! (first_tracked s + j))"
      using jd n by (simp add: joined_def)
    moreover have "take (Suc (first_tracked s + j)) (threads s)
          = take (first_tracked s + j) (threads s) @ [threads s ! (first_tracked s + j)]"
      using b by (rule take_Suc_conv_app_nth)
    ultimately have a': "list_all terminated (take (first_tracked s + Suc j) (threads s))"
      using a by simp
    show ?thesis
    proof (rule trackedI)
      show "length (workers s') \<le> length (threads s')"
        using l by (simp add: t' w')
      show "workers s' = [first_tracked s' ..< length (threads s')]"
        using w by (simp add: t' w' f)
      show "joined_upto (control s') \<le> length (workers s')"
        using True by (simp add: c' w')
      show "list_all terminated (take (first_tracked s' + joined_upto (control s')) (threads s'))"
        using a' by (simp add: t' c' f)
    qed
  next
    case False
    with L_StopJoin assms(1) have t': "threads s' = threads s" and w': "workers s' = []"
      and c': "control s' = L_Idle"
      by (auto simp: control_step_def)
    have f: "first_tracked s' = length (threads s)"
      by (simp add: t' w' first_tracked_def)
    from False j have "first_tracked s + j = length (threads s)"
      using l by (simp add: first_tracked_def)
    with a have "list_all terminated (threads s)"
      by simp
    then show ?thesis
      by (simp add: tracked_def t' w' c' f)
  qed
qed

lemma tracked_step:
  assumes "step e s = Some s'" and "tracked s"
  shows "tracked s'"
proof (cases e)
  case (Worker i)
  with assms show ?thesis using tracked_worker by simp
next
  case Control
  with assms show ?thesis using tracked_control by simp
next
  case (StartWorkers n)
  with assms have "workers s' = workers s" and "threads s' = threads s"
    and "joined_upto (control s') = joined_upto (control s)"
    by (auto simp: start_workers_def split: if_splits)
  with assms(2) show ?thesis
    by (simp add: tracked_transfer)
next
  case StopWorkers
  with assms have "workers s' = workers s" and "threads s' = threads s"
    and "joined_upto (control s') = joined_upto (control s)"
    by (auto simp: stop_workers_def split: if_splits)
  with assms(2) show ?thesis
    by (simp add: tracked_transfer)
next
  case (AddTask c t)
  with assms have "workers s' = workers s" and "threads s' = threads s"
    and "control s' = control s"
    by (auto simp: add_task_def set_client_def put_def split: if_splits)
  with assms(2) show ?thesis
    by (simp add: tracked_transfer)
next
  case (GetProgress c)
  with assms show ?thesis
    by (auto split: if_splits)
next
  case (ResetProgress c)
  with assms have "workers s' = workers s" and "threads s' = threads s"
    and "control s' = control s"
    by (auto simp: reset_progress_def split: if_splits)
  with assms(2) show ?thesis
    by (simp add: tracked_transfer)
next
  case (Client c)
  with assms have "workers s' = workers s" and "threads s' = threads s"
    and "control s' = control s"
    by (auto simp: client_step_def set_client_def split: if_splits)
  with assms(2) show ?thesis
    by (simp add: tracked_transfer)
qed

lemma tracked_run: "run es s = Some s' \<Longrightarrow> tracked s \<Longrightarrow> tracked s'"
proof (induction es arbitrary: s)
  case Nil
  then show ?case by simp
next
  case (Cons e es)
  then show ?case by (auto split: option.splits dest: tracked_step)
qed

lemma tracked_init: "tracked (init n w)"
  by (simp add: tracked_def first_tracked_def init_def)

subsection \<open>The measure of stop_workers\<close>

text \<open>
  While \<open>stop_workers\<close> is under way, every action of its caller or of a worker lowers
  \<open>stop_bound\<close>, the actions of the clients leave it as it is, and the worker the caller
  waits for can act: the queue holds an item for every worker in \<open>get()\<close>.
\<close>

lemma stoppingD:
  assumes "stopping s"
  shows "\<not> running s" and "tracked s" and "\<not> is_start (control s)"
    and "tally waiting (threads s) \<le> int (length (file_queue s)) + puts_left (control s)"
    and "control s \<noteq> L_Idle \<or> (list_all terminated (threads s) \<and> workers s = [])"
  using assms unfolding stopping_def by blast+

lemma stoppingI:
  assumes "\<not> running s" and "tracked s" and "\<not> is_start (control s)"
    and "tally waiting (threads s) \<le> int (length (file_queue s)) + puts_left (control s)"
    and "control s \<noteq> L_Idle \<or> (list_all terminated (threads s) \<and> workers s = [])"
  shows "stopping s"
  using assms unfolding stopping_def by blast

lemma steps_left_nonneg: "0 \<le> steps_left pc"
  by (cases pc) simp_all

lemma control_left_same:
  "control s' = control s \<Longrightarrow> workers s' = workers s \<Longrightarrow> control_left s' = control_left s"
  by (simp add: control_left_def split: lpc.splits)

lemma worker_step_waiting:
  assumes "worker_step i s = Some s'" and "\<not> running s"
  shows "tally waiting (threads s') - int (length (file_queue s'))
         \<le> tally waiting (threads s) - int (length (file_queue s))"
  using assms
  by (auto simp: worker_step_def set_thread_def tally_update
      split: if_splits wpc.splits list.splits option.splits prod.splits outcome.splits)

lemma worker_step_measure:
  assumes "worker_step i s = Some s'" and "\<not> running s"
  shows "tally steps_left (threads s') + 1 \<le> tally steps_left (threads s)"
  using assms
  by (auto simp: worker_step_def set_thread_def tally_update
      split: if_splits wpc.splits list.splits option.splits prod.splits outcome.splits)

lemma stopping_worker:
  assumes "worker_step i s = Some s'" and "stopping s"
  shows "stopping s' \<and> stop_bound s' + 1 \<le> stop_bound s"
proof -
  note sh = worker_step_shape [OF assms(1)]
  from sh have i: "i < length (threads s)" and a: "\<not> terminated (threads s ! i)"
    and w: "workers s' = workers s" and c: "control s' = control s"
    and r: "running s' = running s"
    by simp_all
  note d = stoppingD [OF assms(2)]
  have "\<not> list_all terminated (threads s)"
    using i a by (auto simp: list_all_length)
  with d(5) have n: "control s \<noteq> L_Idle"
    by blast
  have "stopping s'"
  proof (rule stoppingI)
    show "\<not> running s'" using d(1) r by simp
    show "tracked s'" using assms(1) d(2) by (rule tracked_worker)
    show "\<not> is_start (control s')" using d(3) c by simp
    show "tally waiting (threads s') \<le> int (length (file_queue s')) + puts_left (control s')"
      using worker_step_waiting [OF assms(1) d(1)] d(4) c by simp
    show "control s' \<noteq> L_Idle \<or> (list_all terminated (threads s') \<and> workers s' = [])"
      using n c by simp
  qed
  moreover have "stop_bound s' + 1 \<le> stop_bound s"
    using worker_step_measure [OF assms(1) d(1)] control_left_same [OF c w]
    by (simp add: stop_bound_def)
  ultimately show ?thesis by simp
qed

lemma stopping_control:
  assumes "control_step s = Some s'" and "stopping s"
  shows "stopping s' \<and> stop_bound s' + 1 \<le> stop_bound s"
proof -
  note d = stoppingD [OF assms(2)]
  note t' = tracked_control [OF assms(1) d(2)]
  show ?thesis
  proof (cases "control s")
    case L_Idle
    with assms(1) show ?thesis by (simp add: control_step_def)
  next
    case (L_Start k)
    with d(3) show ?thesis by simp
  next
    case (L_StopPut k)
    show ?thesis
    proof (cases k)
      case 0
      with L_StopPut assms(1) have e: "s' = s\<lparr>control := L_StopJoin 0\<rparr>"
        by (simp add: control_step_def)
      have "stopping s'"
        using d(1,3,4) t' L_StopPut 0 by (intro stoppingI) (simp_all add: e)
      moreover have "stop_bound s' + 1 \<le> stop_bound s"
        using L_StopPut 0 by (simp add: e stop_bound_def control_left_def)
      ultimately show ?thesis by simp
    next
      case (Suc k')
      with L_StopPut assms(1) have e: "s' = (put None s)\<lparr>control := L_StopPut k'\<rparr>"
        by (simp add: control_step_def)
      have "stopping s'"
        using d(1,3,4) t' L_StopPut Suc by (intro stoppingI) (simp_all add: e put_def)
      moreover have "stop_bound s' + 1 \<le> stop_bound s"
        using L_StopPut Suc by (simp add: e put_def stop_bound_def control_left_def)
      ultimately show ?thesis by simp
    qed
  next
    case (L_StopJoin j)
    have j: "j \<le> length (workers s)"
      using trackedD(3) [OF d(2)] L_StopJoin by simp
    show ?thesis
    proof (cases "j < length (workers s)")
      case True
      with L_StopJoin assms(1) have e: "s' = s\<lparr>control := L_StopJoin (Suc j)\<rparr>"
        by (auto simp: control_step_def split: if_splits)
      have "stopping s'"
        using d(1,3,4) t' L_StopJoin by (intro stoppingI) (simp_all add: e)
      moreover have "stop_bound s' + 1 \<le> stop_bound s"
        using L_StopJoin True by (simp add: e stop_bound_def control_left_def)
      ultimately show ?thesis by simp
    next
      case False
      with L_StopJoin assms(1) have e: "s' = s\<lparr>workers := [], control := L_Idle\<rparr>"
        by (simp add: control_step_def)
      have "list_all terminated (take (first_tracked s' + joined_upto (control s')) (threads s'))"
        using t' by (rule trackedD(4))
      then have a: "list_all terminated (threads s')"
        by (simp add: e first_tracked_def)
      have "stopping s'"
        using d(1,3,4) t' L_StopJoin a by (intro stoppingI) (simp_all add: e)
      moreover have "stop_bound s' + 1 \<le> stop_bound s"
        using L_StopJoin False j by (simp add: e stop_bound_def control_left_def)
      ultimately show ?thesis by simp
    qed
  qed
qed

lemma stopping_client:
  assumes "step e s = Some s'" and "\<not> is_thread_action e" and "\<not> is_lifecycle_call e"
    and "stopping s"
  shows "stopping s' \<and> stop_bound s' = stop_bound s"
proof -
  note d = stoppingD [OF assms(4)]
  note t' = tracked_step [OF assms(1) d(2)]
  from assms(1-3) have e: "threads s' = threads s" "workers s' = workers s"
    "control s' = control s" "running s' = running s"
    "length (file_queue s) \<le> length (file_queue s')"
    by (cases e; auto simp: add_task_def client_step_def set_client_def put_def
        reset_progress_def split: if_splits)+
  have "stopping s'"
    using d t' e(5) by (intro stoppingI) (simp_all add: e(1-4))
  moreover have "stop_bound s' = stop_bound s"
    using control_left_same [OF e(3) e(2)] by (simp add: stop_bound_def e(1))
  ultimately show ?thesis by simp
qed

lemma stopping_step:
  assumes "step e s = Some s'" and "\<not> is_lifecycle_call e" and "stopping s"
  shows "stopping s' \<and> stop_bound s' + (if is_thread_action e then 1 else 0) \<le> stop_bound s"
proof (cases e)
  case (Worker i)
  with assms show ?thesis using stopping_worker [of i s s'] by simp
next
  case Control
  with assms show ?thesis using stopping_control [of s s'] by simp
next
  case (StartWorkers n)
  with assms show ?thesis by simp
next
  case StopWorkers
  with assms show ?thesis by simp
next
  case (AddTask c t)
  with assms show ?thesis using stopping_client [of e s s'] by simp
next
  case (GetProgress c)
  with assms show ?thesis using stopping_client [of e s s'] by simp
next
  case (ResetProgress c)
  with assms show ?thesis using stopping_client [of e s s'] by simp
next
  case (Client c)
  with assms show ?thesis using stopping_client [of e s s'] by simp
qed

lemma stopping_run:
  "run es s = Some s' \<Longrightarrow> \<not> list_ex is_lifecycle_call es \<Longrightarrow> stopping s \<Longrightarrow>
   stopping s' \<and> stop_bound s' + int (length (filter is_thread_action es)) \<le> stop_bound s"
proof (induction es arbitrary: s)
  case Nil
  then show ?case by simp
next
  case (Cons e es)
  from Cons.prems obtain s1 where 1: "step e s = Some s1" and 2: "run es s1 = Some s'"
    by (auto split: option.splits)
  from Cons.prems have n: "\<not> is_lifecycle_call e" and ns: "\<not> list_ex is_lifecycle_call es"
    by simp_all
  from stopping_step [OF 1 n Cons.prems(3)] have 3: "stopping s1"
    and 4: "stop_bound s1 + (if is_thread_action e then 1 else 0) \<le> stop_bound s"
    by simp_all
  from Cons.IH [OF 2 ns 3] have 5: "stopping s'"
    and 6: "stop_bound s' + int (length (filter is_thread_action es)) \<le> stop_bound s1"
    by simp_all
  from 4 5 6 show ?case
    by (cases "is_thread_action e") simp_all
qed

lemma stop_bound_nonneg:
  assumes "tracked s"
  shows "0 \<le> stop_bound s"
proof -
  have "0 \<le> control_left s"
    using trackedD(3) [OF assms] by (cases "control s") (simp_all add: control_left_def)
  moreover have "0 \<le> tally steps_left (threads s)"
    by (simp add: tally_nonneg steps_left_nonneg)
  ultimately show ?thesis
    by (simp add: stop_bound_def)
qed

lemma alive_enabled:
  assumes "i < length (threads s)" and "\<not> terminated (threads s ! i)"
    and "threads s ! i = W_Get \<longrightarrow> file_queue s \<noteq> []"
  shows "enabled (Worker i) s"
  using assms
  by (cases "threads s ! i")
    (auto simp: enabled_def worker_step_def split: list.splits option.splits prod.splits
      outcome.splits)

lemma stopping_not_stuck:
  assumes "stopping s" and "control s \<noteq> L_Idle"
  shows "enabled Control s \<or> (\<exists>i. enabled (Worker i) s)"
proof (cases "control s")
  case L_Idle
  with assms(2) show ?thesis by simp
next
  case (L_Start k)
  with stoppingD(3) [OF assms(1)] show ?thesis by simp
next
  case (L_StopPut k)
  then have "enabled Control s"
    by (cases k) (simp_all add: enabled_def control_step_def)
  then show ?thesis ..
next
  case (L_StopJoin j)
  note d = stoppingD [OF assms(1)]
  note l = trackedD(1) [OF d(2)] and w = trackedD(2) [OF d(2)]
  show ?thesis
  proof (cases "j < length (workers s) \<and> \<not> joined (workers s ! j) s")
    case False
    with L_StopJoin have "enabled Control s"
      by (auto simp: enabled_def control_step_def)
    then show ?thesis ..
  next
    case True
    have b: "first_tracked s + j < length (threads s)"
      using True l unfolding first_tracked_def by linarith
    have "[first_tracked s ..< length (threads s)] ! j = first_tracked s + j"
      using b by (rule nth_upt)
    then have n: "workers s ! j = first_tracked s + j"
      using w by simp
    let ?t = "first_tracked s + j"
    have a: "\<not> terminated (threads s ! ?t)"
      using True b n by (simp add: joined_def)
    have "file_queue s \<noteq> []" if g: "threads s ! ?t = W_Get"
    proof -
      have "waiting (threads s ! ?t) \<le> tally waiting (threads s)"
        using b by (simp add: tally_ge_nth waiting_nonneg)
      with g d(4) L_StopJoin show ?thesis
        by auto
    qed
    with b a have "enabled (Worker ?t) s"
      by (simp add: alive_enabled)
    then show ?thesis by blast
  qed
qed

lemma sentinels_step:
  assumes "step e s = Some s'" and "\<not> is_lifecycle_call e"
  shows "tally is_sentinel (puts_of e s) + puts_left (control s') = puts_left (control s)"
proof (cases e)
  case (Worker i)
  with assms show ?thesis using worker_step_shape [of i s s'] by simp
next
  case Control
  with assms show ?thesis
    by (auto simp: control_step_def put_def split: if_splits lpc.splits nat.splits)
qed (use assms in \<open>auto simp: add_task_def client_step_def
      set_client_def put_def reset_progress_def split: if_splits\<close>)

lemma sentinels_run:
  "run es s = Some s' \<Longrightarrow> \<not> list_ex is_lifecycle_call es \<Longrightarrow>
   tally is_sentinel (collect puts_of es s) + puts_left (control s') = puts_left (control s)"
proof (induction es arbitrary: s)
  case Nil
  then show ?case by simp
next
  case (Cons e es)
  from Cons.prems obtain s1 where 1: "step e s = Some s1" and 2: "run es s1 = Some s'"
    by (auto split: option.splits)
  from Cons.prems have n: "\<not> is_lifecycle_call e" and ns: "\<not> list_ex is_lifecycle_call es"
    by simp_all
  from sentinels_step [OF 1 n] Cons.IH [OF 2 ns] 1 show ?case
    by simp
qed

lemma tally_le_length: "(\<And>x. f x \<le> c) \<Longrightarrow> tally f xs \<le> c * int (length xs)"
proof (induction xs)
  case Nil
  then show ?case by simp
next
  case (Cons x xs)
  have "tally f xs \<le> c * int (length xs)"
    using Cons.prems by (rule Cons.IH)
  moreover have "f x \<le> c"
    by (rule Cons.prems)
  ultimately show ?case
    by (simp add: algebra_simps)
qed

lemma tally_zero: "list_all (\<lambda>x. f x = 0) xs \<Longrightarrow> tally f xs = 0"
  by (induction xs) simp_all

lemma waiting_le_one: "waiting pc \<le> 1"
  by (cases pc) simp_all

lemma waiting_terminated: "terminated pc \<Longrightarrow> waiting pc = 0"
  by (cases pc) simp_all

lemma steps_left_le_six: "steps_left pc \<le> 6"
  by (cases pc) simp_all

lemma steps_left_terminated: "terminated pc \<Longrightarrow> steps_left pc = 0"
  by (cases pc) simp_all

text \<open>
  A weight that is zero on the threads that have ended counts tracked threads only.
\<close>

lemma tracked_weight:
  assumes "tracked s" and "control s = L_Idle"
    and le: "\<And>pc. f pc \<le> c" and zero: "\<And>pc. terminated pc \<Longrightarrow> f pc = 0"
  shows "tally f (threads s) \<le> c * int (length (workers s))"
proof -
  let ?m = "first_tracked s"
  have "list_all terminated (take ?m (threads s))"
    using trackedD(4) [OF assms(1)] assms(2) by simp
  then have "list_all (\<lambda>pc. f pc = 0) (take ?m (threads s))"
    by (simp add: list_all_iff zero)
  then have 1: "tally f (take ?m (threads s)) = 0"
    by (rule tally_zero)
  have "tally f (drop ?m (threads s)) \<le> c * int (length (drop ?m (threads s)))"
    by (rule tally_le_length) (rule le)
  also have "length (drop ?m (threads s)) = length (workers s)"
    using trackedD(1) [OF assms(1)] by (simp add: first_tracked_def)
  finally have 2: "tally f (drop ?m (threads s)) \<le> c * int (length (workers s))" .
  have "tally f (threads s)
        = tally f (take ?m (threads s)) + tally f (drop ?m (threads s))"
    using tally_append [of f "take ?m (threads s)" "drop ?m (threads s)"] by simp
  with 1 2 show ?thesis by simp
qed

lemma tracked_waiting:
  assumes "tracked s" and "control s = L_Idle"
  shows "tally waiting (threads s) \<le> int (length (workers s))"
  using tracked_weight [OF assms, of waiting 1] by (simp add: waiting_le_one waiting_terminated)

lemma stopping_after_call:
  assumes "tracked s" and "stop_workers s = Some s1"
  shows "stopping s1" and "puts_left (control s1) = int (length (workers s))"
    and "stop_bound s1 \<le> 8 * int (length (workers s)) + 2"
proof -
  from assms(2) have c: "control s = L_Idle"
    and e: "s1 = s\<lparr>running := False, control := L_StopPut (length (workers s))\<rparr>"
    by (simp_all add: stop_workers_def split: if_splits)
  have t: "tracked s1"
    using assms(1) by (rule tracked_transfer) (simp_all add: e c)
  have "tally waiting (threads s) \<le> int (length (workers s))"
    using assms(1) c by (rule tracked_waiting)
  then show "stopping s1"
    using t by (intro stoppingI) (simp_all add: e)
  show "puts_left (control s1) = int (length (workers s))"
    by (simp add: e)
  have "tally steps_left (threads s) \<le> 6 * int (length (workers s))"
    using tracked_weight [OF assms(1) c, of steps_left 6]
    by (simp add: steps_left_le_six steps_left_terminated)
  then show "stop_bound s1 \<le> 8 * int (length (workers s)) + 2"
    by (simp add: e stop_bound_def control_left_def)
qed

lemma stop_example:
  "\<exists>s s1 s2. run before_stop (init 1 one_file) = Some s \<and> stop_workers s = Some s1
      \<and> run during_stop s1 = Some s2 \<and> workers s = [0, 1] \<and> stop_bound s1 = 12
      \<and> control s2 = L_Idle \<and> threads s2 = [W_Exit, W_Exit]
      \<and> file_queue s2 = [Some (returns PyNone), None, None]"
  by (simp add: before_stop_def during_stop_def run_defs returns_def stop_bound_def
      control_left_def)

section \<open>The claims about the counters\<close>




text \<open>
  C4, as the specification states it, fails. \<open>add_task\<close> puts the task before it
  counts it: a worker takes the task and counts it as processed while the client is
  between the two, and \<open>get_progress\<close>, called by a second client, returns
  \<open>processed = 1\<close> with \<open>total = 0\<close>.
\<close>

theorem snapshot_exceeds_total:
  "map_option get_progress
     (run [StartWorkers 1, Control, Control, AddTask 0 (returns PyNone),
           Worker 0, Worker 0, Worker 0, Worker 0, GetProgress 1]
        (init 2 one_file))
   = Some \<lparr>n_total = 0, n_processed = 1, n_errors = 0\<rparr>"
  by (simp add: run_defs returns_def get_progress_def)

text \<open>
  C4, amended. \<open>get_progress\<close> returns the three counters of one state. From a fresh
  pool, along every schedule without \<open>reset_progress\<close>, \<open>processed + errors\<close> is at most
  \<open>total\<close> plus the number of \<open>add_task\<close> calls that have put their task and not yet
  incremented \<open>total\<close>; so \<open>processed + errors \<le> total\<close> whenever no \<open>add_task\<close> is
  between its put and its increment.
\<close>

theorem snapshot_bound:
  assumes "fresh s0" and "run es s0 = Some s" and "\<not> list_ex is_reset es"
  shows "n_processed (get_progress s) + n_errors (get_progress s)
         \<le> n_total (get_progress s) + tally pending (clients s)"
proof -
  have "deficit s = deficit s0 + int (length (collect escapes_of es s0))"
    using assms(2,3) by (rule deficit_run)
  then have b: "0 \<le> deficit s"
    using fresh_deficit [OF assms(1)] by simp
  have "0 \<le> tally is_task (file_queue s)" and "0 \<le> tally uncounted (threads s)"
    by (simp_all add: tally_nonneg is_task_nonneg uncounted_nonneg)
  with b show ?thesis
    by (simp add: deficit_def get_progress_def)
qed

theorem snapshot_bound_witness:
  "case run [StartWorkers 1, Control, Control, AddTask 0 (returns PyNone),
             Worker 0, Worker 0, Worker 0, Worker 0, GetProgress 1] (init 2 one_file) of
     None \<Rightarrow> False
   | Some s \<Rightarrow>
       get_progress s = \<lparr>n_total = 0, n_processed = 1, n_errors = 0\<rparr>
       \<and> tally pending (clients s) = 1
       \<and> n_processed (get_progress s) + n_errors (get_progress s)
           \<le> n_total (get_progress s) + tally pending (clients s)"
proof -
  let ?es = "[StartWorkers 1, Control, Control, AddTask 0 (returns PyNone),
              Worker 0, Worker 0, Worker 0, Worker 0, GetProgress 1]"
  have "\<exists>s. run ?es (init 2 one_file) = Some s
             \<and> get_progress s = \<lparr>n_total = 0, n_processed = 1, n_errors = 0\<rparr>
             \<and> tally pending (clients s) = 1"
    by (simp add: run_defs returns_def get_progress_def tally_update)
  then obtain s where r: "run ?es (init 2 one_file) = Some s"
    and g: "get_progress s = \<lparr>n_total = 0, n_processed = 1, n_errors = 0\<rparr>"
    and p: "tally pending (clients s) = 1"
    by blast
  have n: "\<not> list_ex is_reset ?es"
    by simp
  from snapshot_bound [OF fresh_init r n] r g p show ?thesis
    by simp
qed









section \<open>The claims about the queue and the life cycle\<close>





text \<open>
  C8. Along every schedule, the items in the queue at the start followed by the items
  put are the items taken followed by the items left in the queue: items leave in the
  order they were put. With one worker thread, the tasks taken so far, in order, are the
  tasks whose call has completed, in order, followed by the task under way, if any: when
  a task is taken, every task put before it has completed.
\<close>

theorem fifo_order:
  assumes "run es s = Some s'"
  shows "file_queue s @ collect puts_of es s = collect gets_of es s @ file_queue s'
         \<and> (length (threads s') = 1 \<longrightarrow>
              in_flight s @ tasks_of (collect gets_of es s)
                = collect completes_of es s @ in_flight s')"
  using assms by (simp add: fifo_run single_run)

theorem fifo_order_witness:
  "case run two_tasks (init 1 one_file) of
     None \<Rightarrow> False
   | Some s' \<Rightarrow>
       length (threads s') = 1
       \<and> collect puts_of two_tasks (init 1 one_file)
           = [Some (returns PyNone), Some (raises (PyException ''boom''))]
       \<and> collect gets_of two_tasks (init 1 one_file)
           = [Some (returns PyNone), Some (raises (PyException ''boom''))]
       \<and> file_queue s' = []
       \<and> collect completes_of two_tasks (init 1 one_file) = [returns PyNone]
       \<and> in_flight s' = [raises (PyException ''boom'')]"
proof -
  from two_tasks_example obtain s' where r: "run two_tasks (init 1 one_file) = Some s'"
    and f: "length (threads s') = 1" "file_queue s' = []"
      "in_flight s' = [raises (PyException ''boom'')]"
    by blast
  have q: "file_queue (init 1 one_file) = []"
    by (simp add: init_def)
  from fifo_order [OF r] f q two_tasks_puts
  have "collect gets_of two_tasks (init 1 one_file)
        = [Some (returns PyNone), Some (raises (PyException ''boom''))]"
    by simp
  with f two_tasks_puts two_tasks_completes show ?thesis
    unfolding r option.case by simp
qed

text \<open>
  C6. Let \<open>stop_workers\<close> be called in a state the pool can reach from \<open>__init__\<close>,
  with any number of tracked workers and any queue, and let the system go on along any
  schedule with no further \<open>start_workers\<close> or \<open>stop_workers\<close> call (clients may go on
  calling). Then the actions of the caller and of the workers in that schedule number
  at most \<open>stop_bound\<close>, which is at most \<open>8 n + 2\<close> for \<open>n\<close> tracked workers, whatever
  the queue holds; as long as the call has not returned, the caller or some worker
  can act; and when it has returned, \<open>self.workers\<close> is empty, every thread has ended,
  and the sentinels put are as many as the workers tracked at the call. With no worker
  tracked, the caller's own two actions complete the call.
\<close>

theorem stop_workers_terminates:
  assumes "run es0 (init n w) = Some s" and "stop_workers s = Some s1"
    and "run es s1 = Some s2" and "\<not> list_ex is_lifecycle_call es"
  shows "int (length (filter is_thread_action es)) \<le> stop_bound s1
         \<and> stop_bound s1 \<le> 8 * int (length (workers s)) + 2
         \<and> (control s2 = L_Idle \<or> enabled Control s2 \<or> (\<exists>i. enabled (Worker i) s2))
         \<and> (control s2 = L_Idle \<longrightarrow>
              workers s2 = [] \<and> list_all terminated (threads s2)
              \<and> tally is_sentinel (collect puts_of es s1) = int (length (workers s)))
         \<and> (workers s = [] \<longrightarrow>
              map_option control (run [Control, Control] s1) = Some L_Idle)"
proof -
  have t: "tracked s"
    using assms(1) tracked_init by (rule tracked_run)
  note a = stopping_after_call [OF t assms(2)]
  from stopping_run [OF assms(3,4) a(1)] have s2: "stopping s2"
    and m: "stop_bound s2 + int (length (filter is_thread_action es)) \<le> stop_bound s1"
    by simp_all
  have "0 \<le> stop_bound s2"
    using stoppingD(2) [OF s2] by (rule stop_bound_nonneg)
  with m have 1: "int (length (filter is_thread_action es)) \<le> stop_bound s1"
    by simp
  have 2: "control s2 = L_Idle \<or> enabled Control s2 \<or> (\<exists>i. enabled (Worker i) s2)"
    using stopping_not_stuck [OF s2] by blast
  have 3: "workers s2 = [] \<and> list_all terminated (threads s2)
           \<and> tally is_sentinel (collect puts_of es s1) = int (length (workers s))"
    if i: "control s2 = L_Idle"
  proof -
    from stoppingD(5) [OF s2] i have "list_all terminated (threads s2) \<and> workers s2 = []"
      by simp
    moreover from sentinels_run [OF assms(3,4)] i a(2)
    have "tally is_sentinel (collect puts_of es s1) = int (length (workers s))"
      by simp
    ultimately show ?thesis by simp
  qed
  have 4: "map_option control (run [Control, Control] s1) = Some L_Idle" if "workers s = []"
  proof -
    from assms(2) have "s1 = s\<lparr>running := False, control := L_StopPut (length (workers s))\<rparr>"
      by (simp add: stop_workers_def split: if_splits)
    with that show ?thesis
      by (simp add: control_step_def)
  qed
  from 1 a(3) 2 3 4 show ?thesis
    by blast
qed

theorem stop_workers_terminates_witness:
  "case run before_stop (init 1 one_file) of
     None \<Rightarrow> False
   | Some s \<Rightarrow>
      (case stop_workers s of
         None \<Rightarrow> False
       | Some s1 \<Rightarrow>
          (case run during_stop s1 of
             None \<Rightarrow> False
           | Some s2 \<Rightarrow>
               workers s = [0, 1] \<and> length (filter is_thread_action during_stop) = 11
               \<and> stop_bound s1 = 12
               \<and> control s2 = L_Idle \<and> workers s2 = [] \<and> threads s2 = [W_Exit, W_Exit]
               \<and> file_queue s2 = [Some (returns PyNone), None, None]
               \<and> tally is_sentinel (collect puts_of during_stop s1) = 2))"
proof -
  from stop_example obtain s s1 s2 where r0: "run before_stop (init 1 one_file) = Some s"
    and r1: "stop_workers s = Some s1" and r2: "run during_stop s1 = Some s2"
    and f: "workers s = [0, 1]" "stop_bound s1 = 12" "control s2 = L_Idle"
      "threads s2 = [W_Exit, W_Exit]" "file_queue s2 = [Some (returns PyNone), None, None]"
    by blast
  have n: "\<not> list_ex is_lifecycle_call during_stop"
    by (simp add: during_stop_def)
  have l: "length (filter is_thread_action during_stop) = 11"
    by (simp add: during_stop_def)
  from stop_workers_terminates [OF r0 r1 r2 n] f
  have "workers s2 = [] \<and> tally is_sentinel (collect puts_of during_stop s1) = 2"
    by simp
  with f l show ?thesis
    unfolding r0 r1 r2 option.case by simp
qed

end
